theory Spec2Isabelle
  imports Main "HOL-Library.Word"
begin

unbundle bit_operations_syntax

section \<open>Optical tachometer firmware (ardubenchmark.c)\<close>

text \<open>
  The firmware targets the ATmega328 of an Arduino Nano (avr-gcc): \<open>int\<close> is 16 bits wide,
  \<open>uint16_t\<close> arithmetic is therefore carried out modulo \<open>2 ^ 16\<close> without promotion to a
  wider signed type, and multi-byte objects are stored little-endian. Fixed-width C integers
  are words; globals and function-local statics are the fields of one state record; the
  hardware registers the program reads (ADC result, timer counter, UART status) are inputs.
\<close>

type_synonym u8 = "8 word"
type_synonym u16 = "16 word"
type_synonym u32 = "32 word"

subsection \<open>State\<close>

definition SERIAL_FRAME_HEADER :: u8 where
  "SERIAL_FRAME_HEADER = 0xFA"

definition SERIAL_FRAME_SIZE :: u8 where
  "SERIAL_FRAME_SIZE = 1 + 1 + 2 + 2 + 2"

definition OPTO_THRESHOLD :: u16 where
  "OPTO_THRESHOLD = 30"

definition OPTO_DC_HISTORY_LEN :: u16 where
  "OPTO_DC_HISTORY_LEN = 1024"

text \<open>\<open>struct serial_tx_frame\<close>: the array \<open>data[SERIAL_FRAME_SIZE]\<close> and the cursor.\<close>

record serial_tx_frame =
  data :: "u8 list"
  next_index :: u8

text \<open>
  The memory of the program. \<open>hist\<close>, \<open>num_samples\<close>, \<open>index\<close> and \<open>sum_u32\<close> are the statics
  of \<open>opto_update_dc_signal\<close> (\<open>sum\<close> in the source), \<open>in_peak\<close> the static of
  \<open>opto_detect_edge\<close>, \<open>failure_latch\<close> the static of \<open>main\<close>;
  \<open>prev_opto_timestamp\<close> and \<open>opto_timed_out\<close> are the locals of \<open>main\<close> that live across
  iterations of its loop. \<open>PORTB\<close> and \<open>PORTD\<close> are the output port registers and
  \<open>UDR0\<close> lists, oldest first, the bytes written to the UART data register. The
  registers that only configure a peripheral (data direction, ADC multiplexer and control,
  timer and UART control) are written but never consulted by the code modelled here and are
  left out; \<open>adc_select_channel\<close> and \<open>adc_start\<close> touch nothing else.
\<close>

record state =
  tx_frame :: serial_tx_frame
  UDR0 :: "u8 list"
  hist :: "u8 list"
  num_samples :: u16
  index :: u16
  sum_u32 :: u32
  in_peak :: bool
  PORTB :: u8
  PORTD :: u8
  prev_opto_timestamp :: u16
  opto_timed_out :: bool
  failure_latch :: bool

subsection \<open>Serial frame encoder\<close>

text \<open>\<open>serial_init\<close>: the UART control registers are write-only configuration; the
  cursor is parked at the end of the frame.\<close>

definition serial_init :: "state \<Rightarrow> state" where
  "serial_init s = s\<lparr>tx_frame := (tx_frame s)\<lparr>next_index := SERIAL_FRAME_SIZE\<rparr>\<rparr>"

text \<open>\<open>memcpy(dst + off, &v, 2)\<close> for a 16-bit \<open>v\<close> on the little-endian AVR.\<close>

definition memcpy_u16 :: "u8 list \<Rightarrow> nat \<Rightarrow> u16 \<Rightarrow> u8 list" where
  "memcpy_u16 d off v = d[off := ucast v, off + 1 := ucast (drop_bit 8 v)]"

text \<open>\<open>for (int i = 2; i < SERIAL_FRAME_SIZE; ++i) data[1] += data[i];\<close>\<close>

function checksum_loop :: "u8 list \<Rightarrow> nat \<Rightarrow> u8 list" where
  "checksum_loop d i =
     (if i < unat SERIAL_FRAME_SIZE then checksum_loop (d[1 := d ! 1 + d ! i]) (i + 1) else d)"
  by pat_completeness auto
termination
  by (relation "measure (\<lambda>(d, i). unat SERIAL_FRAME_SIZE - i)") auto

declare checksum_loop.simps [simp del]

definition serial_send :: "state \<Rightarrow> u16 \<Rightarrow> u16 \<Rightarrow> u16 \<Rightarrow> state \<times> bool" where
  "serial_send s tach voltage current =
     (if next_index (tx_frame s) < SERIAL_FRAME_SIZE then (s, False)
      else
        let d0 = (data (tx_frame s))[0 := SERIAL_FRAME_HEADER];
            d1 = memcpy_u16 d0 2 tach;
            d2 = memcpy_u16 d1 4 voltage;
            d3 = memcpy_u16 d2 6 current;
            d4 = d3[1 := 0];
            d5 = checksum_loop d4 2
        in (s\<lparr>tx_frame := \<lparr>data = d5, next_index = 0\<rparr>\<rparr>, True))"

text \<open>\<open>serial_poll\<close>; \<open>ucsr0a\<close> is the value read from the UART status register, whose
  bit 5 says that the data register is empty.\<close>

definition serial_poll :: "state \<Rightarrow> u8 \<Rightarrow> state" where
  "serial_poll s ucsr0a =
     (if next_index (tx_frame s) \<ge> SERIAL_FRAME_SIZE then s
      else if ucsr0a AND push_bit 5 1 = 0 then s
      else
        let s1 = s\<lparr>UDR0 := UDR0 s @ [data (tx_frame s) ! unat (next_index (tx_frame s))]\<rparr>
        in s1\<lparr>tx_frame := (tx_frame s1)\<lparr>next_index := next_index (tx_frame s1) + 1\<rparr>\<rparr>)"

subsection \<open>DC bias tracker and edge detector\<close>

text \<open>
  \<open>opto_update_dc_signal\<close>. The array accesses \<open>hist[index]\<close> and \<open>hist[num_samples]\<close> are
  inside the array whenever \<open>index < 1024\<close> and \<open>num_samples \<le> 1024\<close>, which holds in every
  state the program reaches (\<open>dc_inv\<close> below); outside that range the C program has no
  defined behaviour and the model is not meant to be read there. The 32-bit quotient is
  converted to the \<open>uint8_t\<close> return type.
\<close>

definition opto_update_dc_signal :: "state \<Rightarrow> u8 \<Rightarrow> state \<times> u8" where
  "opto_update_dc_signal s sample =
     (if num_samples s = OPTO_DC_HISTORY_LEN then
        let s1 = s\<lparr>sum_u32 := sum_u32 s - ucast (hist s ! unat (index s))\<rparr>;
            s2 = s1\<lparr>hist := (hist s1)[unat (index s1) := sample]\<rparr>;
            s3 = s2\<lparr>sum_u32 := sum_u32 s2 + ucast sample\<rparr>;
            s4 = s3\<lparr>index := index s3 + 1\<rparr>;
            s5 = (if index s4 \<ge> OPTO_DC_HISTORY_LEN then s4\<lparr>index := 0\<rparr> else s4)
        in (s5, ucast (sum_u32 s5 div ucast OPTO_DC_HISTORY_LEN))
      else
        let s1 = s\<lparr>hist := (hist s)[unat (num_samples s) := sample],
                   num_samples := num_samples s + 1\<rparr>;
            s2 = s1\<lparr>sum_u32 := sum_u32 s1 + ucast sample\<rparr>
        in (s2, ucast (sum_u32 s2 div ucast (num_samples s2))))"

text \<open>
  \<open>opto_detect_edge\<close>. The parameter is an \<open>int16_t\<close>; it is narrowed to \<open>uint8_t\<close> for
  the bias tracker, whose result is widened back. \<open>rpm_out_set\<close> and \<open>rpm_out_clr\<close> write
  \<open>PORTD\<close>. Comparisons of \<open>ac\<close> are signed.
\<close>

definition opto_detect_edge :: "state \<Rightarrow> u16 \<Rightarrow> state \<times> bool" where
  "opto_detect_edge s sample =
     (let (s1, r) = opto_update_dc_signal s (ucast sample);
          dc = (ucast r :: u16);
          ac = sample - dc
      in if in_peak s1 then
           ((if ac <s OPTO_THRESHOLD div 4 then s1\<lparr>in_peak := False\<rparr> else s1), False)
         else if OPTO_THRESHOLD <s ac then (s1\<lparr>PORTD := 0xFF, in_peak := True\<rparr>, True)
         else (s1\<lparr>PORTD := 0xFB\<rparr>, False))"

subsection \<open>Main loop\<close>

definition gpio_init :: "state \<Rightarrow> state" where
  "gpio_init s = s\<lparr>PORTB := 0xFF, PORTD := 0xFF\<rparr>"

definition led_set :: "state \<Rightarrow> bool \<Rightarrow> state" where
  "led_set s on =
     (if on then s\<lparr>PORTB := PORTB s OR push_bit 5 1\<rparr>
      else s\<lparr>PORTB := PORTB s AND NOT (push_bit 5 1)\<rparr>)"

text \<open>
  \<open>wait_adc_poll_serial\<close>: \<open>while (!adc_is_ready()) { serial_poll(); }\<close>. How often the
  body runs is decided by the converter; the argument lists the UART status values that the
  successive calls of \<open>serial_poll\<close> meet before the conversion is complete.
\<close>

fun wait_adc_poll_serial :: "state \<Rightarrow> u8 list \<Rightarrow> state" where
  "wait_adc_poll_serial s [] = s"
| "wait_adc_poll_serial s (u # us) = wait_adc_poll_serial (serial_poll s u) us"

text \<open>What the hardware supplies during one iteration of the loop of \<open>main\<close>: the status
  values met by each of the four waits, the 8-bit optical sample \<open>ADCH\<close>, the timer
  counter \<open>TCNT1\<close>, and the left-adjusted 16-bit converter register \<open>ADC\<close> read for the
  voltage and for the current channel.\<close>

record hw_in =
  polls_opto :: "u8 list"
  ADCH :: u8
  TCNT1 :: u16
  polls_pre :: "u8 list"
  polls_volt :: "u8 list"
  ADC_volt :: u16
  polls_curr :: "u8 list"
  ADC_curr :: u16

text \<open>Lines 229 to 244 of \<open>main\<close>: from the edge flag and the time stamp to
  \<open>need_publish\<close> and \<open>tach\<close>. The difference of the two \<open>uint16_t\<close> stamps wraps at
  \<open>2 ^ 16\<close> and is compared, as a number, with 50000.\<close>

definition main_timing :: "state \<Rightarrow> bool \<Rightarrow> u16 \<Rightarrow> state \<times> bool \<times> u16" where
  "main_timing s edge timestamp =
     (if edge then
        (if \<not> opto_timed_out s then
           (s\<lparr>prev_opto_timestamp := timestamp\<rparr>, True, timestamp - prev_opto_timestamp s)
         else
           (s\<lparr>opto_timed_out := False, prev_opto_timestamp := timestamp\<rparr>, False, 0))
      else if 50000 < uint (timestamp - prev_opto_timestamp s) then
        (s\<lparr>opto_timed_out := True, prev_opto_timestamp := timestamp\<rparr>, True, 0)
      else (s, False, 0))"

text \<open>Lines 247 to 266: the two auxiliary conversions (\<open>adc_read16\<close> is \<open>ADC >> 6\<close>), the
  frame load, the failure latch and the LED.\<close>

definition main_publish :: "state \<Rightarrow> u16 \<Rightarrow> hw_in \<Rightarrow> state" where
  "main_publish s tach h =
     (let s1 = wait_adc_poll_serial s (polls_pre h);
          s2 = wait_adc_poll_serial s1 (polls_volt h);
          voltage = drop_bit 6 (ADC_volt h);
          s3 = wait_adc_poll_serial s2 (polls_curr h);
          current = drop_bit 6 (ADC_curr h);
          (s4, success) = serial_send s3 tach voltage current;
          s5 = (if \<not> success then s4\<lparr>failure_latch := True\<rparr> else s4)
      in led_set s5 (failure_latch s5))"

text \<open>One iteration of \<open>while (1)\<close>.\<close>

definition main_iter :: "state \<Rightarrow> hw_in \<Rightarrow> state" where
  "main_iter s h =
     (let s1 = wait_adc_poll_serial s (polls_opto h);
          sample = ADCH h;
          timestamp = TCNT1 h;
          (s2, edge) = opto_detect_edge s1 (ucast sample);
          (s3, need_publish, tach) = main_timing s2 edge timestamp
      in if need_publish then main_publish s3 tach h else s3)"

text \<open>The memory at reset (globals and statics zeroed), and the state in which \<open>main\<close>
  enters its loop; \<open>t0\<close> is the timer value read for \<open>prev_opto_timestamp\<close>.\<close>

definition reset_state :: state where
  "reset_state =
     \<lparr>tx_frame = \<lparr>data = replicate 8 0, next_index = 0\<rparr>, UDR0 = [],
      hist = replicate 1024 0, num_samples = 0, index = 0, sum_u32 = 0, in_peak = False,
      PORTB = 0, PORTD = 0, prev_opto_timestamp = 0, opto_timed_out = False,
      failure_latch = False\<rparr>"

definition main_init :: "u16 \<Rightarrow> state" where
  "main_init t0 =
     (serial_init (gpio_init reset_state))\<lparr>prev_opto_timestamp := t0, opto_timed_out := True\<rparr>"

fun main_run :: "state \<Rightarrow> hw_in list \<Rightarrow> state" where
  "main_run s [] = s"
| "main_run s (h # hs) = main_run (main_iter s h) hs"

subsection \<open>The receiving side and sample inputs\<close>

text \<open>
  The firmware only encodes. The frame layout and the decoder below are the specification's
  side of the wire format: header \<open>0xFA\<close>, the 8-bit sum of bytes 2 to 7, then three
  little-endian 16-bit fields. They are used to state what \<open>serial_send\<close> produces.
\<close>

definition spec_frame_bytes :: "u16 \<Rightarrow> u16 \<Rightarrow> u16 \<Rightarrow> u8 list" where
  "spec_frame_bytes tach voltage current =
     (let tl = ucast tach; th = ucast (drop_bit 8 tach);
          vl = ucast voltage; vh = ucast (drop_bit 8 voltage);
          cl = ucast current; ch = ucast (drop_bit 8 current)
      in [0xFA, tl + th + vl + vh + cl + ch, tl, th, vl, vh, cl, ch])"

definition spec_le16 :: "u8 \<Rightarrow> u8 \<Rightarrow> u16" where
  "spec_le16 lo hi = ucast lo OR push_bit 8 (ucast hi)"

definition spec_frame_decode :: "u8 list \<Rightarrow> (u16 \<times> u16 \<times> u16) option" where
  "spec_frame_decode d =
     (if length d = 8 \<and> d ! 0 = 0xFA \<and> d ! 1 = sum_list (drop 2 d)
      then Some (spec_le16 (d ! 2) (d ! 3), spec_le16 (d ! 4) (d ! 5), spec_le16 (d ! 6) (d ! 7))
      else None)"

text \<open>An iteration in which no wait has to poll, and the state right after the first
  frame has been loaded (nothing sent yet).\<close>

definition hw_quiet :: hw_in where
  "hw_quiet = \<lparr>polls_opto = [], ADCH = 0, TCNT1 = 0, polls_pre = [], polls_volt = [],
     ADC_volt = 0, polls_curr = [], ADC_curr = 0\<rparr>"

definition loaded_state :: state where
  "loaded_state = fst (serial_send (main_init 0) 1 2 3)"

subsection \<open>Runs of the bias tracker\<close>

text \<open>
  \<open>dc_run s xs\<close> is the memory after \<open>opto_update_dc_signal\<close> has been called on the
  samples \<open>xs\<close> in turn. \<open>spec_window\<close> is the specification's window, the most recent
  1024 samples (all of them while fewer have been seen), and \<open>sum_samples\<close> their sum as a
  number. \<open>dc_inv xs s\<close> relates the statics to the samples \<open>xs\<close> seen so far: during
  warm-up the ring holds them from slot 0; once full, reading the ring from \<open>index\<close> round
  to \<open>index - 1\<close> gives the window, oldest sample first.
\<close>

fun dc_run :: "state \<Rightarrow> u8 list \<Rightarrow> state" where
  "dc_run s [] = s"
| "dc_run s (x # xs) = dc_run (fst (opto_update_dc_signal s x)) xs"

definition spec_window :: "u8 list \<Rightarrow> u8 list" where
  "spec_window xs = drop (length xs - 1024) xs"

definition sum_samples :: "u8 list \<Rightarrow> nat" where
  "sum_samples xs = sum_list (map unat xs)"

definition dc_inv :: "u8 list \<Rightarrow> state \<Rightarrow> bool" where
  "dc_inv xs s \<longleftrightarrow>
     length (hist s) = 1024 \<and>
     unat (num_samples s) = min (length xs) 1024 \<and>
     unat (index s) = (if length xs < 1024 then 0 else length xs mod 1024) \<and>
     (if length xs < 1024 then take (length xs) (hist s) = xs
      else drop (unat (index s)) (hist s) @ take (unat (index s)) (hist s) = spec_window xs) \<and>
     sum_u32 s = of_nat (sum_samples (spec_window xs))"

subsection \<open>Runs of the edge detector\<close>

text \<open>
  \<open>opto_run s xs\<close> is the memory after \<open>opto_detect_edge\<close> has been called on the 8-bit
  samples \<open>xs\<close> in turn, as \<open>main\<close> calls it; \<open>edge_at s xs i\<close> says that the call on
  sample number \<open>i\<close> (counting from 0) returns true.
\<close>

fun opto_run :: "state \<Rightarrow> u8 list \<Rightarrow> state" where
  "opto_run s [] = s"
| "opto_run s (x # xs) = opto_run (fst (opto_detect_edge s (ucast x))) xs"

definition edge_at :: "state \<Rightarrow> u8 list \<Rightarrow> nat \<Rightarrow> bool" where
  "edge_at s xs i = snd (opto_detect_edge (opto_run s (take i xs)) (ucast (xs ! i)))"

section \<open>Properties\<close>

subsection \<open>Frame encoder\<close>

lemma spec_le16_split: "spec_le16 (ucast x) (ucast (drop_bit 8 x)) = x"
  unfolding spec_le16_def by (rule bit_word_eqI) (auto simp: bit_simps)

lemma checksum_loop_unrolled:
  "length d = 8 \<Longrightarrow>
   checksum_loop d 2 = d[1 := d ! 1 + d ! 2 + d ! 3 + d ! 4 + d ! 5 + d ! 6 + d ! 7]"
  by (simp add: checksum_loop.simps SERIAL_FRAME_SIZE_def)

lemma list8:
  assumes "length (d::'a list) = 8"
  shows "\<exists>a b c e f g h i. d = [a, b, c, e, f, g, h, i]"
  using assms by (auto simp: length_Suc_conv numeral_eq_Suc)

lemma serial_send_loaded:
  assumes len: "length (data (tx_frame s)) = 8"
    and idle: "\<not> next_index (tx_frame s) < SERIAL_FRAME_SIZE"
  shows "serial_send s tach voltage current =
           (s\<lparr>tx_frame := \<lparr>data = spec_frame_bytes tach voltage current, next_index = 0\<rparr>\<rparr>, True)"
proof -
  from list8 [OF len]
  obtain a b c d e f g h where d: "data (tx_frame s) = [a, b, c, d, e, f, g, h]"
    by blast
  show ?thesis
    using idle
    by (simp add: serial_send_def Let_def memcpy_u16_def d checksum_loop_unrolled
        spec_frame_bytes_def SERIAL_FRAME_HEADER_def add.assoc)
qed

text \<open>
  Claim C6. For every triple \<open>(tach, voltage, current)\<close>, a successful frame load (cursor at
  the end of the frame) leaves exactly the bytes header \<open>0xFA\<close>, checksum, and the three
  fields low byte first, the checksum being the wrapping 8-bit sum of bytes 2 to 7; decoding
  these bytes gives the triple back.
\<close>

theorem serial_send_frame_roundtrip:
  assumes "length (data (tx_frame s)) = 8"
    and "\<not> next_index (tx_frame s) < SERIAL_FRAME_SIZE"
  shows "data (tx_frame (fst (serial_send s tach voltage current)))
           = spec_frame_bytes tach voltage current
       \<and> snd (serial_send s tach voltage current)
       \<and> spec_frame_decode (data (tx_frame (fst (serial_send s tach voltage current))))
           = Some (tach, voltage, current)"
  by (simp add: serial_send_loaded [OF assms] spec_frame_decode_def spec_frame_bytes_def
      Let_def spec_le16_split add.assoc)

theorem serial_send_frame_roundtrip_witness:
  "length (data (tx_frame (main_init 0))) = 8
   \<and> \<not> next_index (tx_frame (main_init 0)) < SERIAL_FRAME_SIZE
   \<and> data (tx_frame (fst (serial_send (main_init 0) 0x1234 0x5678 0x9ABC)))
       = spec_frame_bytes 0x1234 0x5678 0x9ABC
   \<and> snd (serial_send (main_init 0) 0x1234 0x5678 0x9ABC)
   \<and> spec_frame_decode (data (tx_frame (fst (serial_send (main_init 0) 0x1234 0x5678 0x9ABC))))
       = Some (0x1234, 0x5678, 0x9ABC)"
proof -
  have len: "length (data (tx_frame (main_init 0))) = 8"
    by (simp add: main_init_def serial_init_def gpio_init_def reset_state_def)
  have idle: "\<not> next_index (tx_frame (main_init 0)) < SERIAL_FRAME_SIZE"
    by (simp add: main_init_def serial_init_def gpio_init_def reset_state_def)
  show ?thesis
    using len idle serial_send_frame_roundtrip [OF len idle, of "0x1234" "0x5678" "0x9ABC"]
    by blast
qed

text \<open>
  Claim C7. While a frame is draining (cursor below the frame length) \<open>serial_send\<close> returns
  false and changes nothing at all; with the cursor at or beyond the frame length it returns
  true, stores the frame with its checksum and resets the cursor to 0.
\<close>

theorem serial_send_backpressure:
  "(next_index (tx_frame s) < SERIAL_FRAME_SIZE \<longrightarrow>
      serial_send s tach voltage current = (s, False))
   \<and> (\<not> next_index (tx_frame s) < SERIAL_FRAME_SIZE \<and> length (data (tx_frame s)) = 8 \<longrightarrow>
      serial_send s tach voltage current =
        (s\<lparr>tx_frame := \<lparr>data = spec_frame_bytes tach voltage current, next_index = 0\<rparr>\<rparr>, True))"
  using serial_send_loaded by (simp add: serial_send_def)

theorem serial_send_backpressure_witness:
  "serial_send ((main_init 0)\<lparr>tx_frame := \<lparr>data = [1, 2, 3, 4, 5, 6, 7, 8], next_index = 3\<rparr>\<rparr>) 9 9 9
     = ((main_init 0)\<lparr>tx_frame := \<lparr>data = [1, 2, 3, 4, 5, 6, 7, 8], next_index = 3\<rparr>\<rparr>, False)
   \<and> serial_send (main_init 0) 9 9 9 =
       ((main_init 0)\<lparr>tx_frame := \<lparr>data = spec_frame_bytes 9 9 9, next_index = 0\<rparr>\<rparr>, True)"
proof -
  have busy: "next_index (tx_frame ((main_init 0)\<lparr>tx_frame :=
      \<lparr>data = [1, 2, 3, 4, 5, 6, 7, 8], next_index = 3\<rparr>\<rparr>)) < SERIAL_FRAME_SIZE"
    by (simp add: SERIAL_FRAME_SIZE_def)
  have idle: "\<not> next_index (tx_frame (main_init 0)) < SERIAL_FRAME_SIZE
      \<and> length (data (tx_frame (main_init 0))) = 8"
    by (simp add: main_init_def serial_init_def gpio_init_def reset_state_def)
  show ?thesis
    using busy idle
      serial_send_backpressure [of "(main_init 0)\<lparr>tx_frame :=
        \<lparr>data = [1, 2, 3, 4, 5, 6, 7, 8], next_index = 3\<rparr>\<rparr>" 9 9 9]
      serial_send_backpressure [of "main_init 0" 9 9 9]
    by blast
qed

lemma serial_poll_cases:
  "serial_poll s u = s \<or>
   (next_index (tx_frame s) < SERIAL_FRAME_SIZE \<and>
    serial_poll s u = s\<lparr>UDR0 := UDR0 s @ [data (tx_frame s) ! unat (next_index (tx_frame s))],
                        tx_frame := (tx_frame s)\<lparr>next_index := next_index (tx_frame s) + 1\<rparr>\<rparr>)"
  by (auto simp: serial_poll_def Let_def)

lemma serial_poll_bound:
  "next_index (tx_frame s) \<le> SERIAL_FRAME_SIZE \<Longrightarrow>
   next_index (tx_frame (serial_poll s u)) \<le> SERIAL_FRAME_SIZE"
  unfolding serial_poll_def Let_def SERIAL_FRAME_SIZE_def
  by (auto simp: word_le_nat_alt word_less_nat_alt unat_word_ariths not_le)

lemma serial_send_bound:
  "next_index (tx_frame (fst (serial_send s t v c))) \<le> SERIAL_FRAME_SIZE"
  by (auto simp: serial_send_def Let_def)

lemma wait_bound:
  "next_index (tx_frame s) \<le> SERIAL_FRAME_SIZE \<Longrightarrow>
   next_index (tx_frame (wait_adc_poll_serial s us)) \<le> SERIAL_FRAME_SIZE"
  by (induction us arbitrary: s) (simp_all add: serial_poll_bound)

lemma led_set_tx [simp]: "tx_frame (led_set s b) = tx_frame s"
  by (simp add: led_set_def)

lemma opto_update_tx [simp]: "tx_frame (fst (opto_update_dc_signal s x)) = tx_frame s"
  by (simp add: opto_update_dc_signal_def Let_def)

lemma opto_detect_tx [simp]: "tx_frame (fst (opto_detect_edge s x)) = tx_frame s"
proof -
  obtain s1 r where u: "opto_update_dc_signal s (ucast x) = (s1, r)"
    by (cases "opto_update_dc_signal s (ucast x)")
  then have "tx_frame s1 = tx_frame s"
    using opto_update_tx [of s "ucast x"] by simp
  then show ?thesis
    by (simp add: opto_detect_edge_def Let_def u)
qed

lemma main_timing_tx [simp]: "tx_frame (fst (main_timing s e t)) = tx_frame s"
  by (simp add: main_timing_def)

lemma main_publish_bound:
  "next_index (tx_frame (main_publish s tach h)) \<le> SERIAL_FRAME_SIZE"
proof -
  have "tx_frame (main_publish s tach h) =
      tx_frame (fst (serial_send (wait_adc_poll_serial (wait_adc_poll_serial
        (wait_adc_poll_serial s (polls_pre h)) (polls_volt h)) (polls_curr h)) tach
        (drop_bit 6 (ADC_volt h)) (drop_bit 6 (ADC_curr h))))"
    by (simp add: main_publish_def Let_def split: prod.splits)
  then show ?thesis by (simp add: serial_send_bound)
qed

lemma main_iter_bound:
  assumes "next_index (tx_frame s) \<le> SERIAL_FRAME_SIZE"
  shows "next_index (tx_frame (main_iter s h)) \<le> SERIAL_FRAME_SIZE"
proof -
  let ?s1 = "wait_adc_poll_serial s (polls_opto h)"
  obtain s2 edge where d: "opto_detect_edge ?s1 (ucast (ADCH h)) = (s2, edge)"
    by (cases "opto_detect_edge ?s1 (ucast (ADCH h))")
  obtain s3 np tach where t: "main_timing s2 edge (TCNT1 h) = (s3, np, tach)"
    by (cases "main_timing s2 edge (TCNT1 h)")
  have "tx_frame s2 = tx_frame ?s1" using opto_detect_tx [of ?s1 "ucast (ADCH h)"] d by simp
  moreover have "tx_frame s3 = tx_frame s2" using main_timing_tx [of s2 edge "TCNT1 h"] t by simp
  ultimately have "next_index (tx_frame s3) \<le> SERIAL_FRAME_SIZE"
    using wait_bound [OF assms] by simp
  then show ?thesis
    by (simp add: main_iter_def Let_def d t main_publish_bound)
qed

lemma main_run_bound:
  "next_index (tx_frame s) \<le> SERIAL_FRAME_SIZE \<Longrightarrow>
   next_index (tx_frame (main_run s hs)) \<le> SERIAL_FRAME_SIZE"
  by (induction hs arbitrary: s) (simp_all add: main_iter_bound)

text \<open>
  Claim C9. The cursor is at most \<open>SERIAL_FRAME_SIZE\<close> after \<open>serial_init\<close>, after every
  \<open>serial_send\<close>, after every \<open>serial_poll\<close> that started within the bound, and in every
  state the main loop reaches. A \<open>serial_poll\<close> either changes nothing or sends
  \<open>data[next_index]\<close> with \<open>next_index < 8\<close> and advances the cursor by exactly one.
\<close>

theorem next_index_within_frame:
  "next_index (tx_frame (serial_init s)) \<le> SERIAL_FRAME_SIZE
   \<and> next_index (tx_frame (fst (serial_send s tach voltage current))) \<le> SERIAL_FRAME_SIZE
   \<and> (next_index (tx_frame s) \<le> SERIAL_FRAME_SIZE \<longrightarrow>
        next_index (tx_frame (serial_poll s u)) \<le> SERIAL_FRAME_SIZE)
   \<and> next_index (tx_frame (main_run (main_init t0) hs)) \<le> SERIAL_FRAME_SIZE
   \<and> (serial_poll s u = s \<or>
        unat (next_index (tx_frame s)) < 8 \<and>
        UDR0 (serial_poll s u) = UDR0 s @ [data (tx_frame s) ! unat (next_index (tx_frame s))] \<and>
        unat (next_index (tx_frame (serial_poll s u))) = unat (next_index (tx_frame s)) + 1)"
proof -
  have init: "next_index (tx_frame (main_init t0)) \<le> SERIAL_FRAME_SIZE"
    by (simp add: main_init_def serial_init_def)
  have emit: "serial_poll s u = s \<or>
        unat (next_index (tx_frame s)) < 8 \<and>
        UDR0 (serial_poll s u) = UDR0 s @ [data (tx_frame s) ! unat (next_index (tx_frame s))] \<and>
        unat (next_index (tx_frame (serial_poll s u))) = unat (next_index (tx_frame s)) + 1"
    using serial_poll_cases [of s u]
    by (auto simp: SERIAL_FRAME_SIZE_def word_less_nat_alt unat_word_ariths)
  show ?thesis
    using emit by (simp add: serial_init_def serial_send_bound serial_poll_bound main_run_bound [OF init])
qed

lemma loaded_cursor: "next_index (tx_frame loaded_state) = 0"
  by (simp add: loaded_state_def serial_send_def Let_def main_init_def serial_init_def)

theorem next_index_within_frame_witness:
  "next_index (tx_frame loaded_state) \<le> SERIAL_FRAME_SIZE
   \<and> next_index (tx_frame (serial_poll loaded_state 0x20)) \<le> SERIAL_FRAME_SIZE
   \<and> UDR0 (serial_poll loaded_state 0x20) =
       UDR0 loaded_state @ [data (tx_frame loaded_state) ! unat (next_index (tx_frame loaded_state))]"
proof -
  have le: "next_index (tx_frame loaded_state) \<le> SERIAL_FRAME_SIZE"
    by (simp add: loaded_cursor)
  have emitted: "UDR0 (serial_poll loaded_state 0x20) \<noteq> UDR0 loaded_state"
    by (simp add: serial_poll_def Let_def loaded_cursor SERIAL_FRAME_SIZE_def)
  then have "serial_poll loaded_state 0x20 \<noteq> loaded_state"
    by auto
  then show ?thesis
    using le next_index_within_frame [of loaded_state 1 2 3 "0x20" 0 "[]"] by blast
qed

subsection \<open>Period and timeout tracking\<close>

text \<open>
  Claim C2. On a step with an edge: \<open>prev_opto_timestamp\<close> becomes the current time stamp
  and the tracker is no longer timed out; a period is reported exactly when the tracker was
  not timed out, and it is the difference of the stamps modulo \<open>2 ^ 16\<close>; when it was timed
  out nothing is reported, and the next edge after this one is reported again (one edge is
  absorbed).
\<close>

theorem edge_step_period:
  assumes "main_timing s True ts = (s', need_publish, tach)"
  shows "s' = s\<lparr>opto_timed_out := False, prev_opto_timestamp := ts\<rparr>
       \<and> (need_publish \<longleftrightarrow> \<not> opto_timed_out s)
       \<and> (\<not> opto_timed_out s \<longrightarrow>
            tach = ts - prev_opto_timestamp s \<and>
            uint tach = (uint ts - uint (prev_opto_timestamp s)) mod 2 ^ 16)
       \<and> (opto_timed_out s \<longrightarrow> tach = 0)
       \<and> main_timing s' True ts2 = (s'\<lparr>prev_opto_timestamp := ts2\<rparr>, True, ts2 - ts)"
  using assms by (auto simp: main_timing_def uint_word_ariths split: if_splits)

theorem edge_step_period_witness:
  "main_timing ((main_init 65000)\<lparr>opto_timed_out := False\<rparr>) True 100
     = ((main_init 65000)\<lparr>opto_timed_out := False, prev_opto_timestamp := 100\<rparr>, True, 636)
   \<and> (True \<longleftrightarrow> \<not> opto_timed_out ((main_init 65000)\<lparr>opto_timed_out := False\<rparr>))
   \<and> uint (636 :: u16) = (uint (100 :: u16)
        - uint (prev_opto_timestamp ((main_init 65000)\<lparr>opto_timed_out := False\<rparr>))) mod 2 ^ 16"
proof -
  have run: "main_timing ((main_init 65000)\<lparr>opto_timed_out := False\<rparr>) True 100
     = ((main_init 65000)\<lparr>opto_timed_out := False, prev_opto_timestamp := 100\<rparr>, True, 636)"
    by (simp add: main_timing_def main_init_def)
  show ?thesis
    using run edge_step_period [OF run, of 0] by (simp add: main_init_def)
qed

text \<open>
  Claim C1, as the program has it. On a step without an edge a stall event (period 0,
  \<open>opto_timed_out\<close> set, \<open>prev_opto_timestamp\<close> set to the current stamp) is reported
  exactly when the wrapped difference of the stamps exceeds 50000, whether or not the tracker
  is already timed out; otherwise nothing is reported and nothing changes. The stall event
  therefore repeats each time a further 50000 ticks have passed without an edge.
\<close>

theorem no_edge_stall:
  assumes "main_timing s False ts = (s', need_publish, tach)"
  shows "(need_publish \<longleftrightarrow> 50000 < (uint ts - uint (prev_opto_timestamp s)) mod 2 ^ 16)
       \<and> tach = 0
       \<and> (need_publish \<longrightarrow> s' = s\<lparr>opto_timed_out := True, prev_opto_timestamp := ts\<rparr>)
       \<and> (\<not> need_publish \<longrightarrow> s' = s)
       \<and> (need_publish \<longrightarrow>
            (fst (snd (main_timing s' False ts2)) \<longleftrightarrow> 50000 < (uint ts2 - uint ts) mod 2 ^ 16))"
  using assms by (auto simp: main_timing_def uint_word_ariths split: if_splits)

theorem no_edge_stall_witness:
  "main_timing (main_init 0) False 50001
     = ((main_init 0)\<lparr>opto_timed_out := True, prev_opto_timestamp := 50001\<rparr>, True, 0)
   \<and> (True \<longleftrightarrow> 50000 < (uint (50001 :: u16) - uint (prev_opto_timestamp (main_init 0))) mod 2 ^ 16)
   \<and> (fst (snd (main_timing ((main_init 0)\<lparr>opto_timed_out := True,
          prev_opto_timestamp := 50001\<rparr>) False 34466))
        \<longleftrightarrow> 50000 < (uint (34466 :: u16) - uint (50001 :: u16)) mod 2 ^ 16)"
proof -
  have run: "main_timing (main_init 0) False 50001
     = ((main_init 0)\<lparr>opto_timed_out := True, prev_opto_timestamp := 50001\<rparr>, True, 0)"
    by (simp add: main_timing_def main_init_def)
  show ?thesis
    using run no_edge_stall [OF run, of 34466] by blast
qed

text \<open>
  Claim C1 as stated fails: when \<open>main\<close> enters its loop the tracker is already timed out,
  and still the first step without an edge more than 50000 ticks later reports a stall; a
  second stall is reported in the same gap 50001 ticks after the first.
\<close>

theorem stall_while_timed_out_counterexample:
  "\<not> (fst (snd (main_timing (main_init 0) False 50001)) \<longrightarrow>
        50000 < uint (50001 - prev_opto_timestamp (main_init 0))
        \<and> \<not> opto_timed_out (main_init 0))
   \<and> fst (snd (main_timing (main_init 0) False 50001))
   \<and> fst (snd (main_timing (fst (main_timing (main_init 0) False 50001)) False 34466))"
  by (simp add: main_timing_def main_init_def)

subsection \<open>Failure latch\<close>

lemma serial_poll_latch [simp]: "failure_latch (serial_poll s u) = failure_latch s"
  by (simp add: serial_poll_def Let_def)

lemma serial_poll_PORTB [simp]: "PORTB (serial_poll s u) = PORTB s"
  by (simp add: serial_poll_def Let_def)

lemma wait_latch [simp]: "failure_latch (wait_adc_poll_serial s us) = failure_latch s"
  by (induction us arbitrary: s) simp_all

lemma wait_PORTB [simp]: "PORTB (wait_adc_poll_serial s us) = PORTB s"
  by (induction us arbitrary: s) simp_all

lemma serial_send_latch [simp]: "failure_latch (fst (serial_send s t v c)) = failure_latch s"
  by (simp add: serial_send_def Let_def)

lemma serial_send_PORTB [simp]: "PORTB (fst (serial_send s t v c)) = PORTB s"
  by (simp add: serial_send_def Let_def)

lemma opto_update_other [simp]:
  "failure_latch (fst (opto_update_dc_signal s x)) = failure_latch s"
  "PORTB (fst (opto_update_dc_signal s x)) = PORTB s"
  by (simp_all add: opto_update_dc_signal_def Let_def)

lemma opto_detect_other [simp]:
  "failure_latch (fst (opto_detect_edge s x)) = failure_latch s"
  "PORTB (fst (opto_detect_edge s x)) = PORTB s"
proof -
  obtain s1 r where u: "opto_update_dc_signal s (ucast x) = (s1, r)"
    by (cases "opto_update_dc_signal s (ucast x)")
  then have "failure_latch s1 = failure_latch s" "PORTB s1 = PORTB s"
    using opto_update_other [of s "ucast x"] by simp_all
  then show "failure_latch (fst (opto_detect_edge s x)) = failure_latch s"
    "PORTB (fst (opto_detect_edge s x)) = PORTB s"
    by (simp_all add: opto_detect_edge_def Let_def u)
qed

lemma main_timing_other [simp]:
  "failure_latch (fst (main_timing s e t)) = failure_latch s"
  "PORTB (fst (main_timing s e t)) = PORTB s"
  by (simp_all add: main_timing_def)

lemma led_set_bit: "bit (PORTB (led_set s on)) 5 \<longleftrightarrow> on"
  by (simp add: led_set_def bit_simps)

lemma led_set_latch [simp]: "failure_latch (led_set s on) = failure_latch s"
  by (simp add: led_set_def)

text \<open>After a publish step the latch is set exactly when it was set before or the frame
  load of this step failed; the load happens after the three waits of the step.\<close>

lemma main_publish_latch:
  "failure_latch (main_publish s tach h) \<longleftrightarrow>
     failure_latch s \<or>
     \<not> snd (serial_send (wait_adc_poll_serial (wait_adc_poll_serial
          (wait_adc_poll_serial s (polls_pre h)) (polls_volt h)) (polls_curr h)) tach
          (drop_bit 6 (ADC_volt h)) (drop_bit 6 (ADC_curr h)))"
proof -
  let ?p = "wait_adc_poll_serial (wait_adc_poll_serial
          (wait_adc_poll_serial s (polls_pre h)) (polls_volt h)) (polls_curr h)"
  obtain s4 ok where snd: "serial_send ?p tach (drop_bit 6 (ADC_volt h)) (drop_bit 6 (ADC_curr h)) = (s4, ok)"
    by (cases "serial_send ?p tach (drop_bit 6 (ADC_volt h)) (drop_bit 6 (ADC_curr h))")
  have "failure_latch s4 = failure_latch s"
    using serial_send_latch [of ?p tach "drop_bit 6 (ADC_volt h)" "drop_bit 6 (ADC_curr h)"] snd
    by simp
  then show ?thesis
    by (simp add: main_publish_def Let_def snd)
qed

lemma main_publish_led:
  "bit (PORTB (main_publish s tach h)) 5 \<longleftrightarrow> failure_latch (main_publish s tach h)"
proof -
  let ?p = "wait_adc_poll_serial (wait_adc_poll_serial
          (wait_adc_poll_serial s (polls_pre h)) (polls_volt h)) (polls_curr h)"
  obtain s4 ok where snd: "serial_send ?p tach (drop_bit 6 (ADC_volt h)) (drop_bit 6 (ADC_curr h)) = (s4, ok)"
    by (cases "serial_send ?p tach (drop_bit 6 (ADC_volt h)) (drop_bit 6 (ADC_curr h))")
  show ?thesis
    by (simp add: main_publish_def Let_def snd led_set_bit)
qed

lemma main_iter_cases:
  "\<exists>s3 tach. failure_latch s3 = failure_latch s \<and> PORTB s3 = PORTB s \<and>
     (main_iter s h = s3 \<or> main_iter s h = main_publish s3 tach h)"
proof -
  let ?s1 = "wait_adc_poll_serial s (polls_opto h)"
  obtain s2 edge where d: "opto_detect_edge ?s1 (ucast (ADCH h)) = (s2, edge)"
    by (cases "opto_detect_edge ?s1 (ucast (ADCH h))")
  obtain s3 np tach where t: "main_timing s2 edge (TCNT1 h) = (s3, np, tach)"
    by (cases "main_timing s2 edge (TCNT1 h)")
  have "failure_latch s2 = failure_latch s" "PORTB s2 = PORTB s"
    using opto_detect_other [of ?s1 "ucast (ADCH h)"] d by simp_all
  moreover have "failure_latch s3 = failure_latch s2" "PORTB s3 = PORTB s2"
    using main_timing_other [of s2 edge "TCNT1 h"] t by simp_all
  moreover have "main_iter s h = s3 \<or> main_iter s h = main_publish s3 tach h"
    by (simp add: main_iter_def Let_def d t)
  ultimately show ?thesis by auto
qed

lemma main_iter_latch:
  assumes "failure_latch s" "bit (PORTB s) 5"
  shows "failure_latch (main_iter s h) \<and> bit (PORTB (main_iter s h)) 5"
proof -
  obtain s3 tach where s3: "failure_latch s3 = failure_latch s" "PORTB s3 = PORTB s"
     "main_iter s h = s3 \<or> main_iter s h = main_publish s3 tach h"
    using main_iter_cases [of s h] by blast
  from s3(3) show ?thesis
  proof
    assume "main_iter s h = s3"
    then show ?thesis using s3(1,2) assms by simp
  next
    assume p: "main_iter s h = main_publish s3 tach h"
    have "failure_latch (main_publish s3 tach h)"
      using main_publish_latch [of s3 tach h] s3(1) assms(1) by simp
    then show ?thesis using p main_publish_led [of s3 tach h] by simp
  qed
qed

lemma main_run_latch:
  "failure_latch s \<Longrightarrow> bit (PORTB s) 5 \<Longrightarrow>
   failure_latch (main_run s hs) \<and> bit (PORTB (main_run s hs)) 5"
proof (induction hs arbitrary: s)
  case Nil
  then show ?case by simp
next
  case (Cons h hs)
  have "failure_latch (main_iter s h)" "bit (PORTB (main_iter s h)) 5"
    using main_iter_latch [OF Cons.prems] by simp_all
  then show ?case using Cons.IH by simp
qed

text \<open>
  Claim C8. A failed frame load sets \<open>failure_latch\<close>; a set latch stays set through every
  publish step and every later iteration of the main loop; after every publish step bit 5 of
  \<open>PORTB\<close> (the LED) equals the latch, and once the latch is set the LED stays on.
\<close>

theorem failure_latch_sticky:
  "(\<not> snd (serial_send (wait_adc_poll_serial (wait_adc_poll_serial
          (wait_adc_poll_serial s (polls_pre h)) (polls_volt h)) (polls_curr h)) tach
          (drop_bit 6 (ADC_volt h)) (drop_bit 6 (ADC_curr h)))
      \<longrightarrow> failure_latch (main_publish s tach h))
   \<and> (failure_latch s \<longrightarrow> failure_latch (main_publish s tach h))
   \<and> (bit (PORTB (main_publish s tach h)) 5 \<longleftrightarrow> failure_latch (main_publish s tach h))
   \<and> (failure_latch (main_publish s tach h) \<longrightarrow>
        failure_latch (main_run (main_publish s tach h) hs)
        \<and> bit (PORTB (main_run (main_publish s tach h) hs)) 5)"
proof (intro conjI impI)
  assume "\<not> snd (serial_send (wait_adc_poll_serial (wait_adc_poll_serial
          (wait_adc_poll_serial s (polls_pre h)) (polls_volt h)) (polls_curr h)) tach
          (drop_bit 6 (ADC_volt h)) (drop_bit 6 (ADC_curr h)))"
  then show "failure_latch (main_publish s tach h)"
    by (simp add: main_publish_latch)
next
  assume "failure_latch s"
  then show "failure_latch (main_publish s tach h)"
    by (simp add: main_publish_latch)
next
  show "bit (PORTB (main_publish s tach h)) 5 \<longleftrightarrow> failure_latch (main_publish s tach h)"
    by (rule main_publish_led)
next
  assume l: "failure_latch (main_publish s tach h)"
  then have b: "bit (PORTB (main_publish s tach h)) 5"
    by (simp add: main_publish_led)
  show "failure_latch (main_run (main_publish s tach h) hs)"
    using main_run_latch [OF l b] by simp
  show "bit (PORTB (main_run (main_publish s tach h) hs)) 5"
    using main_run_latch [OF l b] by simp
qed

theorem failure_latch_sticky_witness:
  "failure_latch (main_publish loaded_state 7 hw_quiet)
   \<and> failure_latch (main_publish (loaded_state\<lparr>failure_latch := True\<rparr>) 7 hw_quiet)
   \<and> bit (PORTB (main_publish loaded_state 7 hw_quiet)) 5
   \<and> failure_latch (main_run (main_publish loaded_state 7 hw_quiet) [hw_quiet])
   \<and> bit (PORTB (main_run (main_publish loaded_state 7 hw_quiet) [hw_quiet])) 5"
proof -
  have failed: "\<not> snd (serial_send (wait_adc_poll_serial (wait_adc_poll_serial
          (wait_adc_poll_serial loaded_state (polls_pre hw_quiet)) (polls_volt hw_quiet))
          (polls_curr hw_quiet)) 7
          (drop_bit 6 (ADC_volt hw_quiet)) (drop_bit 6 (ADC_curr hw_quiet)))"
    by (simp add: hw_quiet_def serial_send_def loaded_cursor SERIAL_FRAME_SIZE_def)
  have latched: "failure_latch (loaded_state\<lparr>failure_latch := True\<rparr>)"
    by simp
  show ?thesis
    using failed latched
      failure_latch_sticky [of loaded_state hw_quiet 7 "[hw_quiet]"]
      failure_latch_sticky [of "loaded_state\<lparr>failure_latch := True\<rparr>" hw_quiet 7 "[]"]
    by blast
qed

subsection \<open>DC bias tracker\<close>

lemma dc_run_snoc: "dc_run s (xs @ [x]) = fst (opto_update_dc_signal (dc_run s xs) x)"
  by (induction xs arbitrary: s) simp_all

lemma sum_samples_le: "sum_samples xs \<le> 255 * length xs"
proof (induction xs)
  case Nil
  then show ?case by (simp add: sum_samples_def)
next
  case (Cons x xs)
  have "unat x < 2 ^ LENGTH(8)" by (rule unsigned_less)
  then have "unat x \<le> 255" by simp
  then show ?case using Cons by (simp add: sum_samples_def)
qed

lemma sum_samples_append [simp]: "sum_samples (xs @ ys) = sum_samples xs + sum_samples ys"
  by (simp add: sum_samples_def)

lemma sum_samples_single [simp]: "sum_samples [x] = unat x"
  by (simp add: sum_samples_def)

lemma sum_samples_drop1: "xs \<noteq> [] \<Longrightarrow> sum_samples xs = unat (xs ! 0) + sum_samples (drop 1 xs)"
  by (cases xs) (simp_all add: sum_samples_def)

lemma length_window: "length (spec_window xs) = min (length xs) 1024"
  by (simp add: spec_window_def)

lemma window_short: "length xs \<le> 1024 \<Longrightarrow> spec_window xs = xs"
  by (simp add: spec_window_def)

lemma window_snoc:
  "1024 \<le> length xs \<Longrightarrow> spec_window (xs @ [x]) = drop 1 (spec_window xs) @ [x]"
proof -
  assume "1024 \<le> length xs"
  then have "Suc (length xs) - 1024 = Suc (length xs - 1024)" by arith
  then show ?thesis by (simp add: spec_window_def drop_Suc [symmetric] del: drop_Suc)
qed

lemma ring_step:
  assumes len: "length h = m" and i: "i < m" and w: "drop i h @ take i h = w"
  shows "drop (if Suc i < m then Suc i else 0) (h[i := x])
           @ take (if Suc i < m then Suc i else 0) (h[i := x]) = drop 1 w @ [x]"
    and "h ! i = w ! 0"
proof -
  have ne: "drop i h \<noteq> []" using len i by simp
  have d1: "drop (Suc 0) w = drop (Suc i) h @ take i h"
    using w [symmetric] ne by simp
  have t: "take (Suc i) (h[i := x]) = take i h @ [x]"
    using len i by (simp add: take_Suc_conv_app_nth)
  show "h ! i = w ! 0"
    using w [symmetric] ne len i by (simp add: nth_append)
  show "drop (if Suc i < m then Suc i else 0) (h[i := x])
           @ take (if Suc i < m then Suc i else 0) (h[i := x]) = drop 1 w @ [x]"
  proof (cases "Suc i < m")
    case True
    then show ?thesis by (simp add: d1 t)
  next
    case False
    then have e: "Suc i = m" using i by simp
    have "h[i := x] = take (Suc i) (h[i := x])" using len e by simp
    then have "h[i := x] = take i h @ [x]" using t by simp
    moreover have "drop (Suc 0) w = take i h" using d1 len e by simp
    ultimately show ?thesis using False by simp
  qed
qed

lemma unat_ucast_16_32: "unat (ucast (w :: u16) :: u32) = unat w"
proof -
  have "unat w < 2 ^ LENGTH(16)" by (rule unsigned_less)
  then have "unat w < 2 ^ 32" by simp
  then show ?thesis by (simp add: unsigned_ucast_eq take_bit_nat_eq_self)
qed

lemma quot_u8:
  fixes d :: u32
  assumes "S \<le> 255 * k" "0 < k" "k \<le> 1024" "unat d = k"
  shows "unat (ucast ((of_nat S :: u32) div d) :: u8) = S div k"
proof -
  have "S < 2 ^ 32" using assms(1,3) by simp
  then have "unat (of_nat S :: u32) = S" by (simp add: unat_of_nat)
  then have q: "unat ((of_nat S :: u32) div d) = S div k"
    by (simp add: unat_div assms(4))
  have "S div k \<le> 255" using assms(1,2)
    by (metis div_le_mono nonzero_mult_div_cancel_right less_numeral_extra(3))
  then have "S div k < 2 ^ 8" by simp
  then show ?thesis
    by (simp add: unsigned_ucast_eq q take_bit_nat_eq_self)
qed

lemma dc_step_warm:
  assumes inv: "dc_inv xs s" and n: "length xs < 1024"
    and step: "opto_update_dc_signal s x = (s', b)"
  shows "dc_inv (xs @ [x]) s'"
    and "unat b = sum_samples (xs @ [x]) div (length xs + 1)"
    and "hist s' = (hist s)[length xs := x]"
    and "unat (num_samples s') = length xs + 1"
proof -
  from inv n have len: "length (hist s) = 1024" and ns: "unat (num_samples s) = length xs"
    and ix: "unat (index s) = 0" and tk: "take (length xs) (hist s) = xs"
    and sm: "sum_u32 s = of_nat (sum_samples xs)"
    by (simp_all add: dc_inv_def window_short)
  have neq: "num_samples s \<noteq> OPTO_DC_HISTORY_LEN"
    using ns n by (auto simp: OPTO_DC_HISTORY_LEN_def)
  have s': "s' = s\<lparr>hist := (hist s)[length xs := x], num_samples := num_samples s + 1,
                     sum_u32 := sum_u32 s + ucast x\<rparr>"
    and b: "b = ucast ((sum_u32 s + ucast x) div ucast (num_samples s + 1))"
    using step neq by (auto simp: opto_update_dc_signal_def Let_def ns)
  have ns': "unat (num_samples s + 1) = length xs + 1"
    using n by (simp add: unat_word_ariths ns)
  have sm': "sum_u32 s + ucast x = of_nat (sum_samples (xs @ [x]))"
    by (simp add: sm)
  have win: "spec_window (xs @ [x]) = xs @ [x]"
    using n by (simp add: window_short)
  have tk': "take (Suc (length xs)) ((hist s)[length xs := x]) = xs @ [x]"
    using len n tk by (simp add: take_Suc_conv_app_nth)
  show "hist s' = (hist s)[length xs := x]" by (simp add: s')
  show "unat (num_samples s') = length xs + 1" by (simp add: s' ns')
  have "sum_samples (xs @ [x]) \<le> 255 * (length xs + 1)"
    using sum_samples_le [of "xs @ [x]"] by simp
  moreover have "unat (ucast (num_samples s + 1) :: u32) = length xs + 1"
    using ns' by (simp add: unat_ucast_16_32)
  ultimately show "unat b = sum_samples (xs @ [x]) div (length xs + 1)"
    unfolding b sm' using n by (intro quot_u8) simp_all
  show "dc_inv (xs @ [x]) s'"
  proof (cases "Suc (length xs) < 1024")
    case True
    then show ?thesis
      using len ix tk' by (simp add: dc_inv_def s' ns' sm' win)
  next
    case False
    then have e: "Suc (length xs) = 1024" using n by simp
    have "(hist s)[length xs := x] = take (Suc (length xs)) ((hist s)[length xs := x])"
      using len e by simp
    then have "(hist s)[length xs := x] = xs @ [x]" using tk' by simp
    then show ?thesis
      using len ix e by (simp add: dc_inv_def s' ns' sm' win)
  qed
qed

lemma dc_step_full:
  assumes inv: "dc_inv xs s" and n: "1024 \<le> length xs"
    and step: "opto_update_dc_signal s x = (s', b)"
  shows "dc_inv (xs @ [x]) s'"
    and "unat b = sum_samples (spec_window (xs @ [x])) div 1024"
    and "hist s' = (hist s)[length xs mod 1024 := x]"
    and "hist s ! (length xs mod 1024) = xs ! (length xs - 1024)"
proof -
  let ?i = "length xs mod 1024"
  let ?w = "spec_window xs"
  from inv n have len: "length (hist s) = 1024" and ns: "unat (num_samples s) = 1024"
    and ix: "unat (index s) = ?i"
    and ring: "drop ?i (hist s) @ take ?i (hist s) = ?w"
    and sm: "sum_u32 s = of_nat (sum_samples ?w)"
    by (auto simp: dc_inv_def)
  have i: "?i < 1024" by simp
  have full: "num_samples s = OPTO_DC_HISTORY_LEN"
    using ns by (simp add: OPTO_DC_HISTORY_LEN_def word_unat_eq_iff)
  have ix1: "unat (index s + 1) = Suc ?i"
    using i by (simp add: unat_word_ariths ix)
  have wrap: "OPTO_DC_HISTORY_LEN \<le> index s + 1 \<longleftrightarrow> \<not> Suc ?i < 1024"
    by (simp add: word_le_nat_alt ix1 OPTO_DC_HISTORY_LEN_def not_less)
  let ?i' = "if Suc ?i < 1024 then Suc ?i else 0"
  have s': "hist s' = (hist s)[?i := x]" "num_samples s' = num_samples s"
    "sum_u32 s' = sum_u32 s - ucast (hist s ! ?i) + ucast x"
    "unat (index s') = ?i'"
    and b: "b = ucast ((sum_u32 s - ucast (hist s ! ?i) + ucast x) div ucast OPTO_DC_HISTORY_LEN)"
    using step full wrap ix1 by (auto simp: opto_update_dc_signal_def Let_def ix)
  have wlen: "length ?w = 1024" using n by (simp add: length_window)
  then have wne: "?w \<noteq> []" by auto
  have old: "hist s ! ?i = ?w ! 0"
    using ring_step(2) [OF len i ring] .
  have ring': "drop ?i' ((hist s)[?i := x]) @ take ?i' ((hist s)[?i := x]) = drop 1 ?w @ [x]"
    using ring_step(1) [OF len i ring] .
  have win: "spec_window (xs @ [x]) = drop 1 ?w @ [x]"
    using n by (rule window_snoc)
  have "sum_samples ?w = unat (?w ! 0) + sum_samples (drop 1 ?w)"
    using wne by (rule sum_samples_drop1)
  then have sm': "sum_u32 s - ucast (hist s ! ?i) + ucast x = of_nat (sum_samples (drop 1 ?w @ [x]))"
    by (simp add: sm old)
  have "Suc ?i < 1024 \<or> ?i = 1023" using i by linarith
  then have i': "?i' = Suc (length xs) mod 1024"
    by (auto simp: mod_Suc)
  show "hist s' = (hist s)[?i := x]" by (rule s'(1))
  show "hist s ! ?i = xs ! (length xs - 1024)"
    using n by (simp add: old spec_window_def)
  have "sum_samples (spec_window (xs @ [x])) \<le> 255 * 1024"
    using sum_samples_le [of "spec_window (xs @ [x])"] n by (simp add: length_window)
  moreover have "unat (ucast OPTO_DC_HISTORY_LEN :: u32) = 1024"
    by (simp add: OPTO_DC_HISTORY_LEN_def)
  ultimately show "unat b = sum_samples (spec_window (xs @ [x])) div 1024"
    unfolding b sm' win [symmetric] by (intro quot_u8) simp_all
  show "dc_inv (xs @ [x]) s'"
    unfolding dc_inv_def
    using n len ns ring' i' by (simp add: s' sm' win)
qed

lemma dc_inv_init: "dc_inv [] (main_init t0)"
  by (simp add: dc_inv_def main_init_def serial_init_def gpio_init_def reset_state_def
      spec_window_def sum_samples_def)

lemma dc_inv_run: "dc_inv xs (dc_run (main_init t0) xs)"
proof (induction xs rule: rev_induct)
  case Nil
  show ?case by (simp add: dc_inv_init)
next
  case (snoc x xs)
  obtain s' b where step: "opto_update_dc_signal (dc_run (main_init t0) xs) x = (s', b)"
    by (cases "opto_update_dc_signal (dc_run (main_init t0) xs) x")
  have "dc_inv (xs @ [x]) s'"
  proof (cases "length xs < 1024")
    case True
    then show ?thesis using dc_step_warm(1) [OF snoc.IH _ step] by simp
  next
    case False
    then show ?thesis using dc_step_full(1) [OF snoc.IH _ step] by simp
  qed
  then show ?case by (simp add: dc_run_snoc step)
qed

lemma dc_inv_sum:
  assumes "dc_inv xs s"
  shows "unat (sum_u32 s) = sum_samples (spec_window xs)"
    and "sum_samples (spec_window xs) \<le> 261120"
proof -
  have "sum_samples (spec_window xs) \<le> 255 * min (length xs) 1024"
    using sum_samples_le [of "spec_window xs"] by (simp add: length_window)
  then show le: "sum_samples (spec_window xs) \<le> 261120" by simp
  then have "sum_samples (spec_window xs) < 2 ^ 32" by simp
  moreover have "sum_u32 s = of_nat (sum_samples (spec_window xs))"
    using assms by (simp add: dc_inv_def)
  ultimately show "unat (sum_u32 s) = sum_samples (spec_window xs)"
    by (simp add: unat_of_nat)
qed

lemma sum_samples_rotate:
  "sum_samples (drop i h @ take i h) = sum_samples h"
proof -
  have "sum_samples (take i h) + sum_samples (drop i h) = sum_samples (take i h @ drop i h)"
    by (simp only: sum_samples_append)
  also have "\<dots> = sum_samples h" by simp
  finally show ?thesis by (simp add: add.commute)
qed

text \<open>
  Claim C3. For samples \<open>xs @ [x]\<close> of length \<open>N < 1024\<close> fed to the tracker from reset, the
  \<open>N\<close>-th call returns the sum of all \<open>N\<close> samples divided by \<open>N\<close> (rounded down); it has
  stored the sample in slot \<open>N - 1\<close> of the ring, so that the first \<open>N\<close> slots are the
  samples in order, has incremented the counter to \<open>N\<close> and has added the sample to the sum.
\<close>

theorem warmup_average:
  assumes "length xs + 1 < 1024"
    and "opto_update_dc_signal (dc_run (main_init t0) xs) x = (s', b)"
  shows "unat b = sum_samples (xs @ [x]) div (length xs + 1)
       \<and> hist s' = (hist (dc_run (main_init t0) xs))[length xs := x]
       \<and> take (length xs + 1) (hist s') = xs @ [x]
       \<and> unat (num_samples s') = unat (num_samples (dc_run (main_init t0) xs)) + 1
       \<and> unat (num_samples s') = length xs + 1
       \<and> unat (sum_u32 s') = unat (sum_u32 (dc_run (main_init t0) xs)) + unat x
       \<and> unat (sum_u32 s') = sum_samples (xs @ [x])"
proof -
  let ?s = "dc_run (main_init t0) xs"
  have n: "length xs < 1024" using assms(1) by simp
  note st = dc_step_warm [OF dc_inv_run n assms(2)]
  have w: "spec_window xs = xs" "spec_window (xs @ [x]) = xs @ [x]"
    using assms(1) by (simp_all add: window_short)
  have s0: "unat (sum_u32 ?s) = sum_samples xs"
    using dc_inv_sum(1) [OF dc_inv_run [of xs t0]] by (simp add: w)
  have s1: "unat (sum_u32 s') = sum_samples (xs @ [x])"
    using dc_inv_sum(1) [OF st(1)] by (simp add: w)
  have n0: "unat (num_samples ?s) = length xs"
    using dc_inv_run [of xs t0] n by (simp add: dc_inv_def)
  have tk: "take (length xs + 1) (hist s') = xs @ [x]"
    using st(1) assms(1) by (simp add: dc_inv_def)
  show ?thesis
    using st(2,3,4) tk s0 s1 n0 by simp
qed

theorem warmup_average_witness:
  "length [10, 20 :: u8] + 1 < 1024
   \<and> unat (snd (opto_update_dc_signal (dc_run (main_init 0) [10, 20]) 30)) = 20"
proof -
  have n: "length [10, 20 :: u8] + 1 < 1024" by simp
  have step: "opto_update_dc_signal (dc_run (main_init 0) [10, 20]) 30 =
      (fst (opto_update_dc_signal (dc_run (main_init 0) [10, 20]) 30),
       snd (opto_update_dc_signal (dc_run (main_init 0) [10, 20]) 30))"
    by simp
  have avg: "unat (snd (opto_update_dc_signal (dc_run (main_init 0) [10, 20]) 30))
      = sum_samples ([10, 20] @ [30]) div (length [10, 20 :: u8] + 1)"
    using warmup_average [OF n step] by (rule conjunct1)
  have "unat (snd (opto_update_dc_signal (dc_run (main_init 0) [10, 20]) 30)) = 20"
    unfolding avg by (simp add: sum_samples_def)
  with n show ?thesis by blast
qed

text \<open>
  Claim C4. For samples \<open>xs @ [x]\<close> of length \<open>N \<ge> 1024\<close>, the \<open>N\<close>-th call returns the sum
  of the most recent 1024 samples divided by 1024; afterwards the ring, read from \<open>index\<close>
  round, is exactly the most recent 1024 samples, oldest first, and the running sum is the
  sum of the ring's entries. Once the ring is full each call overwrites, in place, the slot
  that held the oldest sample of the window.
\<close>

theorem steady_state_average:
  assumes "1024 \<le> length xs + 1"
    and "opto_update_dc_signal (dc_run (main_init t0) xs) x = (s', b)"
  shows "unat b = sum_samples (spec_window (xs @ [x])) div 1024
       \<and> length (hist s') = 1024
       \<and> drop (unat (index s')) (hist s') @ take (unat (index s')) (hist s')
           = spec_window (xs @ [x])
       \<and> unat (index s') = (length xs + 1) mod 1024
       \<and> unat (sum_u32 s') = sum_samples (hist s')
       \<and> (1024 \<le> length xs \<longrightarrow>
            hist s' = (hist (dc_run (main_init t0) xs))[length xs mod 1024 := x] \<and>
            hist (dc_run (main_init t0) xs) ! (length xs mod 1024) = xs ! (length xs - 1024))"
proof -
  let ?s = "dc_run (main_init t0) xs"
  have inv': "dc_inv (xs @ [x]) s'"
    using dc_inv_run [of "xs @ [x]" t0] by (simp add: dc_run_snoc assms(2))
  have len: "length (hist s') = 1024"
    and idx: "unat (index s') = (length xs + 1) mod 1024"
    and ring: "drop (unat (index s')) (hist s') @ take (unat (index s')) (hist s')
           = spec_window (xs @ [x])"
    using inv' assms(1) by (auto simp: dc_inv_def)
  have "unat (sum_u32 s') = sum_samples (spec_window (xs @ [x]))"
    using dc_inv_sum(1) [OF inv'] .
  then have sm: "unat (sum_u32 s') = sum_samples (hist s')"
    by (simp only: ring [symmetric] sum_samples_rotate)
  have res: "unat b = sum_samples (spec_window (xs @ [x])) div 1024"
  proof (cases "length xs < 1024")
    case True
    then have e: "length xs + 1 = 1024" using assms(1) by simp
    then have "spec_window (xs @ [x]) = xs @ [x]" by (simp add: window_short)
    then show ?thesis
      using dc_step_warm(2) [OF dc_inv_run True assms(2)] e by simp
  next
    case False
    then show ?thesis using dc_step_full(2) [OF dc_inv_run _ assms(2)] by simp
  qed
  have evict: "1024 \<le> length xs \<longrightarrow>
            hist s' = (hist ?s)[length xs mod 1024 := x] \<and>
            hist ?s ! (length xs mod 1024) = xs ! (length xs - 1024)"
    using dc_step_full(3,4) [OF dc_inv_run _ assms(2)] by simp
  show ?thesis
    using res len ring idx sm evict by simp
qed

theorem steady_state_average_witness:
  "1024 \<le> length (replicate 1024 (5 :: u8)) + 1
   \<and> 1024 \<le> length (replicate 1024 (5 :: u8))
   \<and> unat (snd (opto_update_dc_signal (dc_run (main_init 0) (replicate 1024 5)) 9))
       = sum_samples (spec_window (replicate 1024 5 @ [9])) div 1024
   \<and> hist (fst (opto_update_dc_signal (dc_run (main_init 0) (replicate 1024 5)) 9))
       = (hist (dc_run (main_init 0) (replicate 1024 5)))
           [length (replicate 1024 (5 :: u8)) mod 1024 := 9]"
proof -
  have n: "1024 \<le> length (replicate 1024 (5 :: u8)) + 1" by simp
  have m: "1024 \<le> length (replicate 1024 (5 :: u8))" by simp
  have step: "opto_update_dc_signal (dc_run (main_init 0) (replicate 1024 5)) 9 =
      (fst (opto_update_dc_signal (dc_run (main_init 0) (replicate 1024 5)) 9),
       snd (opto_update_dc_signal (dc_run (main_init 0) (replicate 1024 5)) 9))"
    by simp
  show ?thesis
    using n m steady_state_average [OF n step] by blast
qed

text \<open>
  Claim C10. After every call the 32-bit sum equals the true sum of the window, which is at
  most \<open>1024 * 255 = 261120\<close>, so the sum never wraps (nor does subtracting the evicted
  sample); the quotient by the sample count (1024 once the ring is full) is at most 255 and
  the \<open>uint8_t\<close> returned is that quotient, not a truncation of it.
\<close>

theorem dc_sum_no_overflow:
  assumes "opto_update_dc_signal (dc_run (main_init t0) xs) x = (s', b)"
  shows "unat (sum_u32 s') = sum_samples (spec_window (xs @ [x]))
       \<and> unat (sum_u32 s') \<le> 1024 * 255
       \<and> unat (num_samples s') = min (length xs + 1) 1024
       \<and> unat (sum_u32 s') div unat (num_samples s') \<le> 255
       \<and> unat b = unat (sum_u32 s') div unat (num_samples s')
       \<and> (1024 \<le> length xs \<longrightarrow>
            unat (hist (dc_run (main_init t0) xs) ! unat (index (dc_run (main_init t0) xs)))
              \<le> unat (sum_u32 (dc_run (main_init t0) xs)))"
proof -
  let ?s = "dc_run (main_init t0) xs"
  let ?S = "sum_samples (spec_window (xs @ [x]))"
  have inv': "dc_inv (xs @ [x]) s'"
    using dc_inv_run [of "xs @ [x]" t0] by (simp add: dc_run_snoc assms)
  have sm: "unat (sum_u32 s') = ?S" and le: "?S \<le> 261120"
    using dc_inv_sum [OF inv'] by simp_all
  have ns: "unat (num_samples s') = min (length xs + 1) 1024"
    using inv' by (simp add: dc_inv_def)
  have res: "unat b = ?S div min (length xs + 1) 1024"
  proof (cases "length xs < 1024")
    case True
    then have "spec_window (xs @ [x]) = xs @ [x]" by (simp add: window_short)
    then show ?thesis
      using dc_step_warm(2) [OF dc_inv_run True assms] True by simp
  next
    case False
    then show ?thesis using dc_step_full(2) [OF dc_inv_run _ assms] by simp
  qed
  have "unat b < 2 ^ LENGTH(8)" by (rule unsigned_less)
  then have q: "?S div min (length xs + 1) 1024 \<le> 255" using res by simp
  have old: "1024 \<le> length xs \<longrightarrow> unat (hist ?s ! unat (index ?s)) \<le> unat (sum_u32 ?s)"
  proof
    assume n: "1024 \<le> length xs"
    have inv: "dc_inv xs ?s" by (rule dc_inv_run)
    then have ix: "unat (index ?s) = length xs mod 1024" using n by (simp add: dc_inv_def)
    have "spec_window xs \<noteq> []" using n by (auto simp: spec_window_def)
    then have "unat (spec_window xs ! 0) \<le> sum_samples (spec_window xs)"
      using sum_samples_drop1 [of "spec_window xs"] by simp
    moreover have "hist ?s ! (length xs mod 1024) = spec_window xs ! 0"
      using dc_step_full(4) [OF inv n assms] n by (simp add: spec_window_def)
    ultimately show "unat (hist ?s ! unat (index ?s)) \<le> unat (sum_u32 ?s)"
      using dc_inv_sum(1) [OF inv] ix by simp
  qed
  show ?thesis
    using sm le ns res q old by simp
qed

theorem dc_sum_no_overflow_witness:
  "1024 \<le> length (replicate 1024 (255 :: u8))
   \<and> unat (sum_u32 (fst (opto_update_dc_signal (dc_run (main_init 0) (replicate 1024 255)) 255)))
       \<le> 1024 * 255
   \<and> unat (snd (opto_update_dc_signal (dc_run (main_init 0) (replicate 1024 255)) 255))
       = unat (sum_u32 (fst (opto_update_dc_signal (dc_run (main_init 0) (replicate 1024 255)) 255)))
         div unat (num_samples (fst (opto_update_dc_signal (dc_run (main_init 0)
             (replicate 1024 255)) 255)))
   \<and> unat (hist (dc_run (main_init 0) (replicate 1024 255))
          ! unat (index (dc_run (main_init 0) (replicate 1024 255))))
       \<le> unat (sum_u32 (dc_run (main_init 0) (replicate 1024 255)))"
proof -
  have m: "1024 \<le> length (replicate 1024 (255 :: u8))" by simp
  have step: "opto_update_dc_signal (dc_run (main_init 0) (replicate 1024 255)) 255 =
      (fst (opto_update_dc_signal (dc_run (main_init 0) (replicate 1024 255)) 255),
       snd (opto_update_dc_signal (dc_run (main_init 0) (replicate 1024 255)) 255))"
    by simp
  show ?thesis
    using m dc_sum_no_overflow [OF step] by blast
qed

subsection \<open>Edge detector\<close>

lemma ucast_u8_roundtrip: "(ucast (ucast (x :: u8) :: u16) :: u8) = x"
  by (rule bit_word_eqI) (auto simp: bit_simps)

lemma uint_u8: "uint (ucast (x :: u8) :: u16) = uint x"
proof -
  have "uint x < 2 ^ LENGTH(8)" by (rule unsigned_less)
  then have "uint x < 2 ^ 16" by simp
  then show ?thesis by (simp add: unsigned_ucast_eq take_bit_int_eq_self)
qed

lemma small_int_signed:
  "- 32768 \<le> k \<and> k < 32768 \<Longrightarrow> signed_take_bit 15 (k :: int) = k"
  by (intro signed_take_bit_int_eq_self) simp_all

lemma uint_u8_range: "0 \<le> uint (x :: u8) \<and> uint x < 256"
proof -
  have "uint x < 2 ^ LENGTH(8)" by (rule unsigned_less)
  then show ?thesis by simp
qed

lemma sint_u8: "sint (ucast (x :: u8) :: u16) = uint x"
proof -
  have "- 32768 \<le> uint x \<and> uint x < 32768"
    using uint_u8_range [of x] by linarith
  then have "signed_take_bit 15 (uint x) = uint x"
    by (rule small_int_signed)
  moreover have "sint (ucast x :: u16) = signed_take_bit 15 (uint (ucast x :: u16))"
    by (simp add: sint_uint)
  ultimately show ?thesis
    by (simp only: uint_u8)
qed

lemma sint_ac:
  "sint ((ucast (x :: u8) :: u16) - ucast (r :: u8)) = uint x - uint r"
proof -
  have "- 32768 \<le> uint x - uint r \<and> uint x - uint r < 32768"
    using uint_u8_range [of x] uint_u8_range [of r] by linarith
  then have "signed_take_bit 15 (uint x - uint r) = uint x - uint r"
    by (rule small_int_signed)
  moreover have "sint ((ucast x :: u16) - ucast r) = signed_take_bit 15 (uint x - uint r)"
    by (simp add: sint_word_diff sint_u8)
  ultimately show ?thesis by simp
qed

lemma opto_update_in_peak [simp]: "in_peak (fst (opto_update_dc_signal s x)) = in_peak s"
  by (simp add: opto_update_dc_signal_def Let_def)

lemma detect_step:
  assumes "opto_update_dc_signal s x = (s1, r)"
  shows "opto_detect_edge s (ucast x) =
     (if in_peak s then
        ((if uint x - uint r < 7 then s1\<lparr>in_peak := False\<rparr> else s1), False)
      else if 30 < uint x - uint r then (s1\<lparr>PORTD := 0xFF, in_peak := True\<rparr>, True)
      else (s1\<lparr>PORTD := 0xFB\<rparr>, False))"
proof -
  have p: "in_peak s1 = in_peak s"
    using opto_update_in_peak [of s x] assms by simp
  have lo: "sint (OPTO_THRESHOLD div 4) = 7" and hi: "sint OPTO_THRESHOLD = 30"
    by (simp_all add: OPTO_THRESHOLD_def)
  show ?thesis
    by (simp add: opto_detect_edge_def ucast_u8_roundtrip assms Let_def p
        word_sless_alt sint_ac lo hi)
qed

lemma detect_edge_iff:
  "snd (opto_detect_edge s (ucast x)) \<longleftrightarrow>
     \<not> in_peak s \<and> 30 < uint x - uint (snd (opto_update_dc_signal s x))"
  using detect_step [of s x "fst (opto_update_dc_signal s x)" "snd (opto_update_dc_signal s x)"]
  by simp

lemma detect_in_peak_iff:
  "in_peak (fst (opto_detect_edge s (ucast x))) \<longleftrightarrow>
     (if in_peak s then \<not> uint x - uint (snd (opto_update_dc_signal s x)) < 7
      else 30 < uint x - uint (snd (opto_update_dc_signal s x)))"
  using detect_step [of s x "fst (opto_update_dc_signal s x)" "snd (opto_update_dc_signal s x)"]
    opto_update_in_peak [of s x]
  by simp

lemma opto_run_snoc:
  "opto_run s (xs @ [x]) = fst (opto_detect_edge (opto_run s xs) (ucast x))"
  by (induction xs arbitrary: s) simp_all

lemma opto_run_take_Suc:
  "i < length xs \<Longrightarrow>
   opto_run s (take (Suc i) xs) = fst (opto_detect_edge (opto_run s (take i xs)) (ucast (xs ! i)))"
  by (simp add: take_Suc_conv_app_nth opto_run_snoc)

lemma no_double_trigger:
  assumes ij: "i < j" and j: "j < length xs"
    and ei: "edge_at s xs i" and ej: "edge_at s xs j"
  shows "\<exists>k. i < k \<and> k < j \<and> \<not> in_peak (opto_run s (take (Suc k) xs))"
proof -
  have idle_j: "\<not> in_peak (opto_run s (take j xs))"
    using ej by (simp add: edge_at_def detect_edge_iff)
  have i: "i < length xs" using ij j by simp
  have "in_peak (opto_run s (take (Suc i) xs))"
    using ei by (simp add: opto_run_take_Suc [OF i] detect_in_peak_iff edge_at_def detect_edge_iff)
  then have "Suc i \<noteq> j" using idle_j by auto
  then obtain k where k: "j = Suc k" "i < k" using ij by (cases j) auto
  then show ?thesis using idle_j by auto
qed

text \<open>
  Claim C5. With \<open>ac\<close> the sample minus the bias just updated with it, a call returns true
  exactly when the detector is idle and \<open>ac > 30\<close>, and it is then in the peak state; in the
  peak state it returns false and stays there unless \<open>ac < 7\<close>. Hence between two calls that
  report an edge there is a call after which the detector is idle.
\<close>

theorem edge_detector_hysteresis:
  "(snd (opto_detect_edge s (ucast x)) \<longleftrightarrow>
      \<not> in_peak s \<and> 30 < uint x - uint (snd (opto_update_dc_signal s x)))
   \<and> (in_peak (fst (opto_detect_edge s (ucast x))) \<longleftrightarrow>
        (if in_peak s then \<not> uint x - uint (snd (opto_update_dc_signal s x)) < 7
         else 30 < uint x - uint (snd (opto_update_dc_signal s x))))
   \<and> (i < j \<and> j < length xs \<and> edge_at s xs i \<and> edge_at s xs j \<longrightarrow>
        (\<exists>k. i < k \<and> k < j \<and> \<not> in_peak (opto_run s (take (Suc k) xs))))"
  using detect_edge_iff [of s x] detect_in_peak_iff [of s x] no_double_trigger [of i j xs s]
  by blast

theorem edge_detector_hysteresis_witness:
  "(1 :: nat) < 3 \<and> 3 < length [0, 100, 0, 200 :: u8]
   \<and> edge_at (main_init 0) [0, 100, 0, 200] 1
   \<and> edge_at (main_init 0) [0, 100, 0, 200] 3
   \<and> (\<exists>k. 1 < k \<and> k < 3 \<and>
         \<not> in_peak (opto_run (main_init 0) (take (Suc k) [0, 100, 0, 200])))"
proof -
  have order: "(1 :: nat) < 3 \<and> 3 < length [0, 100, 0, 200 :: u8]"
    by simp
  have first: "edge_at (main_init 0) [0, 100, 0, 200] 1"
    by (simp add: edge_at_def opto_detect_edge_def opto_update_dc_signal_def Let_def
        main_init_def serial_init_def gpio_init_def reset_state_def word_sless_alt
        OPTO_THRESHOLD_def OPTO_DC_HISTORY_LEN_def)
  have second: "edge_at (main_init 0) [0, 100, 0, 200] 3"
    by (simp add: edge_at_def opto_detect_edge_def opto_update_dc_signal_def Let_def
        main_init_def serial_init_def gpio_init_def reset_state_def word_sless_alt
        OPTO_THRESHOLD_def OPTO_DC_HISTORY_LEN_def)
  show ?thesis
    using order first second
      edge_detector_hysteresis [where s = "main_init 0" and i = 1 and j = 3
        and xs = "[0, 100, 0, 200]"]
    by blast
qed

end
